theory Spec2Isabelle
  imports Complex_Main
begin

section \<open>The k-fold training driver of train_sweep_kfold.py\<close>

text \<open>
  The theory embeds the control logic of \<^verbatim>\<open>train\<close> and \<^verbatim>\<open>getDataloader\<close>:
  the per-fold epoch loop with its best-value trackers, early stopping and checkpoint
  writes, the end-of-epoch validation aggregate, the selective augmentation of a
  training batch, the construction of the two loaders and the final report over the
  folds. Networks, losses and scores are collaborators of the driver and appear as
  parameters. Metric values are real numbers; \<^verbatim>\<open>np.inf\<close>, the start value of the
  best loss, is a value of its own.
\<close>

subsection \<open>Values\<close>

datatype error = ValueError | AssertionError

text \<open>A float that is either finite or \<^verbatim>\<open>np.inf\<close>.\<close>

datatype xreal = Fin real | PInf

fun xless :: "xreal \<Rightarrow> xreal \<Rightarrow> bool" where
  "xless (Fin a) (Fin b) = (a < b)"
| "xless (Fin a) PInf = True"
| "xless PInf b = False"

text \<open>
  Python's builtin \<^verbatim>\<open>min(a, b)\<close> keeps \<^verbatim>\<open>a\<close> unless \<^verbatim>\<open>b < a\<close>, and
  \<^verbatim>\<open>max(a, b)\<close> keeps \<^verbatim>\<open>a\<close> unless \<^verbatim>\<open>b > a\<close>.
\<close>

definition py_min :: "xreal \<Rightarrow> xreal \<Rightarrow> xreal" where
  "py_min a b = (if xless b a then b else a)"

definition py_max :: "real \<Rightarrow> real \<Rightarrow> real" where
  "py_max a b = (if b > a then b else a)"




subsection \<open>The epoch loop of one fold\<close>

text \<open>The three aggregates the validation phase of an epoch produces (lines 496-498).\<close>

record metrics =
  val_loss :: real
  val_acc :: real
  val_f1 :: real

text \<open>
  The collaborators of the loop. \<open>'m\<close> is the trainable state (network, optimizer,
  scheduler), \<open>'w\<close> what \<^verbatim>\<open>model.module.state_dict()\<close> returns. The loaders are lists
  of batches of dataset indices.
\<close>

record ('m, 'w) collab =
  new_model :: "nat \<Rightarrow> 'm"
  train_epoch :: "nat list list \<Rightarrow> 'm \<Rightarrow> 'm"
  validate :: "nat list list \<Rightarrow> 'm \<Rightarrow> metrics"
  scheduler_step :: "real \<Rightarrow> 'm \<Rightarrow> 'm"
  state_dict :: "'m \<Rightarrow> 'w"

text \<open>What the loop does to the outside: the two \<^verbatim>\<open>torch.save\<close> calls and the
  \<^verbatim>\<open>Early Stopping...\<close> line, each with the epoch number.\<close>

datatype event = Save_best nat | Save_last nat | Early_stopping nat

record ('m, 'w) fold_state =
  model :: 'm
  best_val_acc :: real
  best_val_f1 :: real
  best_val_loss :: xreal
  counter :: nat
  files :: "string \<Rightarrow> 'w option"
  events :: "event list"

definition patience :: nat where
  "patience = 5"

definition best_pth :: "string \<Rightarrow> string" where
  "best_pth save_dir = save_dir @ ''/best.pth''"

definition last_pth :: "string \<Rightarrow> string" where
  "last_pth save_dir = save_dir @ ''/last.pth''"

text \<open>Lines 503-518: the trackers, the best checkpoint and the early-stop counter.\<close>

definition update_best ::
  "('m, 'w) collab \<Rightarrow> string \<Rightarrow> nat \<Rightarrow> metrics \<Rightarrow> ('m, 'w) fold_state \<Rightarrow> ('m, 'w) fold_state" where
  "update_best c save_dir epoch m s =
     (let s1 = s\<lparr>best_val_loss := py_min (best_val_loss s) (Fin (val_loss m)),
                 best_val_acc := py_max (best_val_acc s) (val_acc m)\<rparr>
      in if val_f1 m > best_val_f1 s1
         then s1\<lparr>files := (files s1)(best_pth save_dir \<mapsto> state_dict c (model s1)),
                 events := events s1 @ [Save_best epoch],
                 best_val_f1 := val_f1 m,
                 counter := 0\<rparr>
         else s1\<lparr>counter := counter s1 + 1\<rparr>)"

text \<open>
  One pass of the body of the epoch loop (lines 317-539): the training phase, the
  validation phase, the scheduler step, the trackers, then either the break or the
  last checkpoint. The result holds the epoch's metrics, the state, and whether the
  loop was left.
\<close>

definition epoch_body ::
  "('m, 'w) collab \<Rightarrow> string \<Rightarrow> nat list list \<Rightarrow> nat list list \<Rightarrow> nat \<Rightarrow>
   ('m, 'w) fold_state \<Rightarrow> metrics \<times> ('m, 'w) fold_state \<times> bool" where
  "epoch_body c save_dir train_loader val_loader epoch s =
     (let net = train_epoch c train_loader (model s);
          m = validate c val_loader net;
          s1 = update_best c save_dir epoch m (s\<lparr>model := scheduler_step c (val_f1 m) net\<rparr>)
      in if counter s1 > patience
         then (m, s1\<lparr>events := events s1 @ [Early_stopping epoch]\<rparr>, True)
         else (m, s1\<lparr>files := (files s1)(last_pth save_dir \<mapsto> state_dict c (model s1)),
                      events := events s1 @ [Save_last epoch]\<rparr>, False))"






subsection \<open>The data loaders\<close>

text \<open>
  Modelled from the spec: \<^verbatim>\<open>torch.utils.data.DataLoader\<close> and \<^verbatim>\<open>Subset\<close> are library
  classes that \<^verbatim>\<open>getDataloader\<close> calls; their code is not part of the repository. The spec gives
  the contract (fixed batch size, the final incomplete batch dropped, no shuffling at
  the loader unless a sampler does it); the definitions follow the library's documented
  behaviour. A subset is the list of the dataset positions it selects; the items are
  fetched from the dataset when a batch is consumed. A sampler decides the order in
  which the subset is visited.
\<close>

definition Subset :: "'d \<Rightarrow> nat list \<Rightarrow> nat list" where
  "Subset dataset indices = indices"

record 'a DataLoader =
  dataset :: "'a list"
  batch_size :: nat
  num_workers :: nat
  sampler :: "('a list \<Rightarrow> 'a list) option"
  drop_last :: bool
  shuffle :: bool

text \<open>
  The constructor refuses a sampler together with \<^verbatim>\<open>shuffle=True\<close> and a batch size
  that is not positive.
\<close>

definition DataLoader ::
  "'a list \<Rightarrow> int \<Rightarrow> nat \<Rightarrow> ('a list \<Rightarrow> 'a list) option \<Rightarrow> bool \<Rightarrow> bool \<Rightarrow> error + 'a DataLoader" where
  "DataLoader ds bs nw smp dl sh =
     (if smp \<noteq> None \<and> sh then Inl ValueError
      else if bs \<le> 0 then Inl ValueError
      else Inr \<lparr>dataset = ds, batch_size = nat bs, num_workers = nw, sampler = smp,
                drop_last = dl, shuffle = sh\<rparr>)"

text \<open>
  The batch sampler collects the sampled items into a batch, hands the batch out when
  it holds \<^verbatim>\<open>batch_size\<close> items, and at the end hands out what is left unless
  \<^verbatim>\<open>drop_last\<close> is set.
\<close>

fun batch_sampler :: "nat \<Rightarrow> bool \<Rightarrow> 'a list \<Rightarrow> 'a list \<Rightarrow> 'a list list" where
  "batch_sampler bs dl [] batch = (if batch \<noteq> [] \<and> \<not> dl then [batch] else [])"
| "batch_sampler bs dl (idx # rest) batch =
     (if length (batch @ [idx]) = bs then (batch @ [idx]) # batch_sampler bs dl rest []
      else batch_sampler bs dl rest (batch @ [idx]))"

text \<open>
  The order of a pass: the sampler's when there is one, a random permutation
  (\<open>rand_perm\<close>, drawn by the library) when \<^verbatim>\<open>shuffle\<close> is set, the subset's own
  otherwise.
\<close>

definition sampled :: "('a list \<Rightarrow> 'a list) \<Rightarrow> 'a DataLoader \<Rightarrow> 'a list" where
  "sampled rand_perm L =
     (case sampler L of
        Some f \<Rightarrow> f (dataset L)
      | None \<Rightarrow> if shuffle L then rand_perm (dataset L) else dataset L)"

definition iter_loader :: "('a list \<Rightarrow> 'a list) \<Rightarrow> 'a DataLoader \<Rightarrow> 'a list list" where
  "iter_loader rand_perm L = batch_sampler (batch_size L) (drop_last L) (sampled rand_perm L) []"

text \<open>\<^verbatim>\<open>len(loader)\<close>, computed from the sampler's length without a pass.\<close>

definition len_sampler :: "'a DataLoader \<Rightarrow> nat" where
  "len_sampler L = (case sampler L of Some f \<Rightarrow> length (f (dataset L)) | None \<Rightarrow> length (dataset L))"

definition len_loader :: "'a DataLoader \<Rightarrow> nat" where
  "len_loader L =
     (if drop_last L then len_sampler L div batch_size L
      else (len_sampler L + batch_size L - 1) div batch_size L)"

text \<open>Lines 116-141.\<close>

definition getDataloader ::
  "'d \<Rightarrow> nat list \<Rightarrow> nat list \<Rightarrow> int \<Rightarrow> nat \<Rightarrow> (nat list \<Rightarrow> nat list) option \<Rightarrow>
   error + (nat DataLoader \<times> nat DataLoader)" where
  "getDataloader ds train_idx valid_idx bs nw smp =
     (let train_set = Subset ds train_idx;
          val_set = Subset ds valid_idx
      in case DataLoader train_set bs nw smp True False of
           Inl e \<Rightarrow> Inl e
         | Inr train_loader \<Rightarrow>
             (case DataLoader val_set bs nw None True False of
                Inl e \<Rightarrow> Inl e
              | Inr val_loader \<Rightarrow> Inr (train_loader, val_loader)))"

subsection \<open>The fold planner\<close>

text \<open>
  Modelled from the spec: \<^verbatim>\<open>StratifiedKFold(n_splits=5).split\<close> is a library routine
  that \<^verbatim>\<open>train\<close> calls (lines 244-254); its code is not part of the repository. The spec gives the
  contract: five pairs of index lists, stratified by label, in an order fixed by the
  order of the input, and a failure when no class is large enough. The definitions
  follow the library's algorithm without shuffling: classes are numbered in the order
  of their first appearance, the sorted class numbers are dealt round robin to the
  folds to fix how many samples of each class a fold tests, and within each class the
  samples get their fold numbers in blocks, in input order.
\<close>

fun classes_seen :: "'a list \<Rightarrow> 'a list \<Rightarrow> 'a list" where
  "classes_seen seen [] = seen"
| "classes_seen seen (y # ys) =
     (if y \<in> set seen then classes_seen seen ys else classes_seen (seen @ [y]) ys)"

fun index_of :: "'a list \<Rightarrow> 'a \<Rightarrow> nat" where
  "index_of [] y = 0"
| "index_of (c # cs) y = (if c = y then 0 else Suc (index_of cs y))"

definition encode_classes :: "'a list \<Rightarrow> nat list" where
  "encode_classes y = map (index_of (classes_seen [] y)) y"

text \<open>The slice \<^verbatim>\<open>xs[i::n]\<close>: the items at the positions \<open>i\<close>, \<open>i + n\<close>, \<open>i + 2n\<close>, ...\<close>

definition strided :: "nat \<Rightarrow> nat \<Rightarrow> 'a list \<Rightarrow> 'a list" where
  "strided i n xs = map (\<lambda>j. xs ! j) (filter (\<lambda>j. i \<le> j \<and> (j - i) mod n = 0) [0 ..< length xs])"

text \<open>How many samples of class \<open>k\<close> fold \<open>i\<close> tests.\<close>

definition allocation :: "nat \<Rightarrow> nat list \<Rightarrow> nat \<Rightarrow> nat \<Rightarrow> nat" where
  "allocation n_splits y_order i k = count_list (strided i n_splits y_order) k"

definition folds_for_class :: "nat \<Rightarrow> nat list \<Rightarrow> nat \<Rightarrow> nat list" where
  "folds_for_class n_splits y_order k =
     concat (map (\<lambda>i. replicate (allocation n_splits y_order i k) i) [0 ..< n_splits])"

text \<open>
  \<^verbatim>\<open>test_folds[mask] = values\<close>: the positions where the mask holds take the values in
  order; the numbers of both must agree.
\<close>

fun assign_masked :: "nat list \<Rightarrow> bool list \<Rightarrow> nat list \<Rightarrow> nat list" where
  "assign_masked [] ms vs = []"
| "assign_masked (t # ts) [] vs = t # ts"
| "assign_masked (t # ts) (True # ms) [] = t # ts"
| "assign_masked (t # ts) (True # ms) (v # vs) = v # assign_masked ts ms vs"
| "assign_masked (t # ts) (False # ms) vs = t # assign_masked ts ms vs"

definition masked_assign :: "nat list \<Rightarrow> bool list \<Rightarrow> nat list \<Rightarrow> error + nat list" where
  "masked_assign test_folds msk vs =
     (if length (filter (\<lambda>b. b) msk) = length vs then Inr (assign_masked test_folds msk vs)
      else Inl ValueError)"

text \<open>The loop over the classes; \<open>rng\<close> permutes a class's fold numbers when shuffling is on.\<close>

fun class_loop ::
  "nat \<Rightarrow> bool \<Rightarrow> (nat \<Rightarrow> nat list \<Rightarrow> nat list) \<Rightarrow> nat list \<Rightarrow> nat list \<Rightarrow> nat list \<Rightarrow> nat list \<Rightarrow>
   error + nat list" where
  "class_loop n_splits shuf rng y_encoded y_order [] test_folds = Inr test_folds"
| "class_loop n_splits shuf rng y_encoded y_order (k # ks) test_folds =
     (case masked_assign test_folds (map (\<lambda>c. c = k) y_encoded)
             (if shuf then rng k (folds_for_class n_splits y_order k)
              else folds_for_class n_splits y_order k) of
        Inl e \<Rightarrow> Inl e
      | Inr test_folds' \<Rightarrow> class_loop n_splits shuf rng y_encoded y_order ks test_folds')"

text \<open>
  The fold number of every sample. The array starts uninitialised (\<open>np_empty\<close> gives
  what the memory holds); no class too small for the number of folds is an error only
  when every class is.
\<close>

definition make_test_folds ::
  "nat \<Rightarrow> bool \<Rightarrow> (nat \<Rightarrow> nat list \<Rightarrow> nat list) \<Rightarrow> (nat \<Rightarrow> nat) \<Rightarrow> 'a list \<Rightarrow> error + nat list" where
  "make_test_folds n_splits shuf rng np_empty y =
     (let y_encoded = encode_classes y;
          n_classes = length (classes_seen [] y);
          y_counts = map (count_list y_encoded) [0 ..< n_classes]
      in if list_all (\<lambda>cnt. n_splits > cnt) y_counts then Inl ValueError
         else class_loop n_splits shuf rng y_encoded (sort y_encoded) [0 ..< n_classes]
                (map np_empty [0 ..< length y]))"

definition StratifiedKFold_split ::
  "nat \<Rightarrow> bool \<Rightarrow> (nat \<Rightarrow> nat list \<Rightarrow> nat list) \<Rightarrow> (nat \<Rightarrow> nat) \<Rightarrow> 'p list \<Rightarrow> 'a list \<Rightarrow>
   error + (nat list \<times> nat list) list" where
  "StratifiedKFold_split n_splits shuf rng np_empty X y =
     (if n_splits \<le> 1 then Inl ValueError
      else if length X \<noteq> length y then Inl ValueError
      else if n_splits > length X then Inl ValueError
      else case make_test_folds n_splits shuf rng np_empty y of
             Inl e \<Rightarrow> Inl e
           | Inr test_folds \<Rightarrow>
               Inr (map (\<lambda>i. (filter (\<lambda>p. test_folds ! p \<noteq> i) [0 ..< length X],
                              filter (\<lambda>p. test_folds ! p = i) [0 ..< length X]))
                        [0 ..< n_splits]))"

subsection \<open>The run over the folds\<close>

text \<open>What the run draws from its platform: uninitialised memory and the two random permutations.\<close>

record platform =
  np_empty :: "nat \<Rightarrow> nat"
  rng_shuffle :: "nat \<Rightarrow> nat list \<Rightarrow> nat list"
  rand_perm :: "nat list \<Rightarrow> nat list"






definition n_splits :: nat where
  "n_splits = 5"




subsection \<open>A training batch\<close>



subsection \<open>The validation phase\<close>

text \<open>
  What the validation loop calls per batch: the network in evaluation mode, the
  argmax over its output, the loss and the macro F1 score.
\<close>

record ('x, 'o) scorer =
  forward :: "'x list \<Rightarrow> 'o"
  argmax :: "'o \<Rightarrow> int list"
  criterion :: "'o \<Rightarrow> int list \<Rightarrow> real"
  f1_score :: "int list \<Rightarrow> int list \<Rightarrow> real"

text \<open>
  Lines 413-495: the loop over the validation batches. A batch is a list of dataset
  positions; \<open>ds\<close> gives the transformed image and the label at a position. The three
  lists are \<^verbatim>\<open>val_loss_items\<close>, \<^verbatim>\<open>val_acc_items\<close> and \<^verbatim>\<open>val_f1_items\<close>. On the first
  batch (\<open>figure_is_None\<close>) \<^verbatim>\<open>grid_image\<close> is called with \<^verbatim>\<open>n=16\<close> and asserts that
  the batch holds at least 16 images (line 60).
\<close>

fun val_loop ::
  "('x, 'o) scorer \<Rightarrow> (nat \<Rightarrow> 'x \<times> int) \<Rightarrow> nat list list \<Rightarrow> bool \<Rightarrow>
   real list \<times> nat list \<times> real list \<Rightarrow> error + (real list \<times> nat list \<times> real list)" where
  "val_loop sc ds [] figure_is_None items = Inr items"
| "val_loop sc ds (val_batch # rest) figure_is_None (val_loss_items, val_acc_items, val_f1_items) =
     (let inputs = map (\<lambda>p. fst (ds p)) val_batch;
          labels = map (\<lambda>p. snd (ds p)) val_batch;
          outs = forward sc inputs;
          preds = argmax sc outs;
          loss_item = criterion sc outs labels;
          acc_item = length (filter (\<lambda>(l, p). l = p) (zip labels preds));
          f1_item = f1_score sc labels preds
      in if figure_is_None \<and> 16 > length inputs then Inl AssertionError
         else val_loop sc ds rest False
                (val_loss_items @ [loss_item], val_acc_items @ [acc_item], val_f1_items @ [f1_item]))"

text \<open>
  Lines 496-498: the aggregates. \<open>val_set_len\<close> is \<^verbatim>\<open>len(val_set)\<close>, where \<^verbatim>\<open>val_set\<close>
  is the variable of \<^verbatim>\<open>train\<close> bound at line 191 by \<^verbatim>\<open>dataset.split_dataset()\<close>; the
  dataset class is not among the sources, so the length is a parameter. numpy divides by zero
  without raising and gives nan or inf; these are not real numbers and the result is
  \<open>None\<close> then. Where the result is a triple of real numbers, it is what the
  collaborator \<open>validate\<close> of the epoch loop stands for.
\<close>

definition validate_epoch ::
  "('x, 'o) scorer \<Rightarrow> (nat \<Rightarrow> 'x \<times> int) \<Rightarrow> (nat list \<Rightarrow> nat list) \<Rightarrow> nat DataLoader \<Rightarrow> nat \<Rightarrow>
   error + metrics option" where
  "validate_epoch sc ds rp val_loader val_set_len =
     (case val_loop sc ds (iter_loader rp val_loader) True ([], [], []) of
        Inl e \<Rightarrow> Inl e
      | Inr (val_loss_items, val_acc_items, val_f1_items) \<Rightarrow>
          if len_loader val_loader = 0 \<or> val_set_len = 0 then Inr None
          else Inr (Some \<lparr>val_loss = sum_list val_loss_items / real (len_loader val_loader),
                          val_acc = real (sum_list val_acc_items) / real val_set_len,
                          val_f1 = sum_list val_f1_items / real (len_loader val_loader)\<rparr>))"

subsection \<open>Notions used in the statements\<close>


text \<open>The rank of a sample within its class: how many earlier samples have the same class.\<close>

definition class_rank :: "nat list \<Rightarrow> nat \<Rightarrow> nat" where
  "class_rank ye p = count_list (take p ye) (ye ! p)"

subsection \<open>Concrete inputs\<close>





text \<open>
  A network that predicts the parity of a sample's position, and a dataset whose first
  eight labels are that parity and whose other labels are 5.
\<close>

definition demo_scorer :: "(nat, nat list) scorer" where
  "demo_scorer =
     \<lparr>forward = (\<lambda>xs. xs), argmax = map (\<lambda>x. int (x mod 2)),
      criterion = (\<lambda>outs labels. 1 / 2), f1_score = (\<lambda>labels preds. 1 / 4)\<rparr>"

definition demo_dataset :: "nat \<Rightarrow> nat \<times> int" where
  "demo_dataset p = (p, if p < 8 then int (p mod 2) else 5)"

text \<open>A dataset of one class and a network that predicts every sample right.\<close>

definition demo_sure :: "(nat, nat list) scorer" where
  "demo_sure =
     \<lparr>forward = (\<lambda>xs. xs), argmax = map (\<lambda>x. 0),
      criterion = (\<lambda>outs labels. 1 / 2), f1_score = (\<lambda>labels preds. 1)\<rparr>"

definition demo_one_class :: "nat \<Rightarrow> nat \<times> int" where
  "demo_one_class p = (p, 0)"

section \<open>Properties of the epoch loop\<close>

subsection \<open>One epoch\<close>





lemma update_best_model:
  "model (update_best c d e m s) = model s"
  by (simp add: update_best_def Let_def)

lemma update_best_files:
  "files (update_best c d e m s) =
     (if val_f1 m > best_val_f1 s then (files s)(best_pth d \<mapsto> state_dict c (model s)) else files s)"
  by (simp add: update_best_def Let_def)

lemma update_best_events:
  "events (update_best c d e m s) =
     (if val_f1 m > best_val_f1 s then events s @ [Save_best e] else events s)"
  by (simp add: update_best_def Let_def)

lemma epoch_body_fst:
  "fst (epoch_body c d trl vll e s) = validate c vll (train_epoch c trl (model s))"
  by (simp add: epoch_body_def Let_def)



subsection \<open>The run of a fold\<close>




















lemma epoch_body_no_break:
  assumes "\<not> snd (snd (epoch_body c d trl vll e s))"
  shows "files (fst (snd (epoch_body c d trl vll e s))) (last_pth d) =
           Some (state_dict c (model (fst (snd (epoch_body c d trl vll e s)))))"
    and "events (fst (snd (epoch_body c d trl vll e s))) =
           events s @ (if val_f1 (fst (epoch_body c d trl vll e s)) > best_val_f1 s then [Save_best e] else [])
             @ [Save_last e]"
  using assms
  by (auto simp add: epoch_body_def Let_def update_best_def split: if_splits)






subsection \<open>The best-value trackers\<close>




lemma py_min_Fin_Fin: "py_min (Fin x) (Fin y) = Fin (min x y)"
  by (simp add: py_min_def min_def)













section \<open>Properties of the run over the folds\<close>














section \<open>Properties of the checkpoint files\<close>















section \<open>Properties of the loaders\<close>

lemma full_batch_div:
  assumes "0 < bs" and "Suc (length batch) = bs"
  shows "(length batch + length (idx # rest)) div bs = Suc (length rest div bs)"
proof -
  have "length batch + length (idx # rest) = bs + length rest"
    using assms(2) by simp
  moreover have "(bs + length rest) div bs = length rest div bs + 1"
    using assms(1) by (intro div_add_self1) simp
  ultimately show ?thesis by (simp only: Suc_eq_plus1)
qed

lemma batch_sampler_drop_length:
  assumes "0 < bs" and "length batch < bs"
  shows "length (batch_sampler bs True xs batch) = (length batch + length xs) div bs"
  using assms(2)
proof (induction xs arbitrary: batch)
  case Nil
  then show ?case by simp
next
  case (Cons idx rest)
  show ?case
  proof (cases "Suc (length batch) = bs")
    case True
    have "length (batch_sampler bs True rest []) = length rest div bs"
      using Cons.IH [of "[]"] assms(1) by simp
    moreover have "(length batch + length (idx # rest)) div bs = Suc (length rest div bs)"
      by (rule full_batch_div [OF assms(1) True])
    ultimately show ?thesis using True by simp
  next
    case False
    with Cons.prems have "length (batch @ [idx]) < bs" by simp
    from Cons.IH [OF this] False show ?thesis by simp
  qed
qed

lemma batch_sampler_drop_sizes:
  assumes "length batch < bs"
  shows "\<forall>b \<in> set (batch_sampler bs True xs batch). length b = bs"
  using assms
proof (induction xs arbitrary: batch)
  case Nil
  then show ?case by simp
next
  case (Cons idx rest)
  show ?case
  proof (cases "Suc (length batch) = bs")
    case True
    then have "0 < bs" by simp
    with Cons.IH [of "[]"] True show ?thesis by simp
  next
    case False
    with Cons.prems have "length (batch @ [idx]) < bs" by simp
    from Cons.IH [OF this] False show ?thesis by simp
  qed
qed

lemma batch_sampler_drop_concat:
  assumes "0 < bs" and "length batch < bs"
  shows "concat (batch_sampler bs True xs batch) =
         take (bs * ((length batch + length xs) div bs)) (batch @ xs)"
  using assms(2)
proof (induction xs arbitrary: batch)
  case Nil
  then show ?case by simp
next
  case (Cons idx rest)
  show ?case
  proof (cases "Suc (length batch) = bs")
    case True
    have ih: "concat (batch_sampler bs True rest []) = take (bs * (length rest div bs)) rest"
      using Cons.IH [of "[]"] assms(1) by simp
    have q: "(length batch + length (idx # rest)) div bs = Suc (length rest div bs)"
      by (rule full_batch_div [OF assms(1) True])
    have len: "length (batch @ [idx]) = bs" using True by simp
    have "take (bs * Suc (length rest div bs)) ((batch @ [idx]) @ rest) =
          (batch @ [idx]) @ take (bs * (length rest div bs)) rest"
      using len by (simp del: append_assoc)
    then have "take (bs * Suc (length rest div bs)) (batch @ idx # rest) =
          (batch @ [idx]) @ take (bs * (length rest div bs)) rest"
      by simp
    with ih q True show ?thesis by simp
  next
    case False
    with Cons.prems have "length (batch @ [idx]) < bs" by simp
    from Cons.IH [OF this] False show ?thesis by simp
  qed
qed

lemma getDataloader_Inr:
  assumes "0 < bs"
  shows "getDataloader ds train_idx valid_idx bs nw smp =
     Inr (\<lparr>dataset = train_idx, batch_size = nat bs, num_workers = nw, sampler = smp,
           drop_last = True, shuffle = False\<rparr>,
          \<lparr>dataset = valid_idx, batch_size = nat bs, num_workers = nw, sampler = None,
           drop_last = True, shuffle = False\<rparr>)"
  using assms by (simp add: getDataloader_def DataLoader_def Subset_def)

text \<open>
  Claim C7. For a positive batch size, such as the default 64, \<^verbatim>\<open>getDataloader\<close>
  returns a training loader that drops the last incomplete batch, does not shuffle
  and has no sampler. A pass over it visits the training subset in its own order,
  whatever the random permutation would be, and yields \<open>train_count div batch_size\<close>
  batches, which is also what \<^verbatim>\<open>len\<close> reports; each batch holds \<^verbatim>\<open>batch_size\<close> samples,
  and together they are the first \<open>batch_size * (train_count div batch_size)\<close> samples
  of the subset.
\<close>

theorem train_loader_batches:
  assumes "0 < bs"
  shows "\<exists>train_loader val_loader.
     getDataloader ds train_idx valid_idx bs nw None = Inr (train_loader, val_loader) \<and>
     drop_last train_loader \<and> \<not> shuffle train_loader \<and> sampler train_loader = None \<and>
     iter_loader rp train_loader = batch_sampler (nat bs) True train_idx [] \<and>
     length (iter_loader rp train_loader) = length train_idx div nat bs \<and>
     len_loader train_loader = length train_idx div nat bs \<and>
     (\<forall>b \<in> set (iter_loader rp train_loader). length b = nat bs) \<and>
     concat (iter_loader rp train_loader) = take (nat bs * (length train_idx div nat bs)) train_idx"
proof -
  let ?tl = "\<lparr>dataset = train_idx, batch_size = nat bs, num_workers = nw, sampler = None,
           drop_last = True, shuffle = False\<rparr>"
  let ?vl = "\<lparr>dataset = valid_idx, batch_size = nat bs, num_workers = nw, sampler = None,
           drop_last = True, shuffle = False\<rparr>"
  from assms have pos: "0 < nat bs" by simp
  have it: "iter_loader rp ?tl = batch_sampler (nat bs) True train_idx []"
    by (simp add: iter_loader_def sampled_def)
  have len: "length (iter_loader rp ?tl) = length train_idx div nat bs"
    using batch_sampler_drop_length [OF pos, of "[]" train_idx] pos by (simp add: it)
  have ll: "len_loader ?tl = length train_idx div nat bs"
    by (simp add: len_loader_def len_sampler_def)
  have sz: "\<forall>b \<in> set (iter_loader rp ?tl). length b = nat bs"
    using batch_sampler_drop_sizes [of "[]" "nat bs" train_idx] pos by (simp add: it)
  have cc: "concat (iter_loader rp ?tl) = take (nat bs * (length train_idx div nat bs)) train_idx"
    using batch_sampler_drop_concat [OF pos, of "[]" train_idx] pos by (simp add: it)
  have "getDataloader ds train_idx valid_idx bs nw None = Inr (?tl, ?vl)"
    by (rule getDataloader_Inr [OF assms])
  with it len ll sz cc show ?thesis
    by (intro exI [of _ ?tl] exI [of _ ?vl]) simp
qed

text \<open>A training subset of 130 samples gives two batches of 64.\<close>

theorem train_loader_batches_witness:
  "\<exists>train_loader val_loader.
     getDataloader () [0 ..< 130] [130 ..< 160] 64 0 None = Inr (train_loader, val_loader) \<and>
     drop_last train_loader \<and> \<not> shuffle train_loader \<and>
     length (iter_loader rev train_loader) = 2 \<and>
     len_loader train_loader = 2 \<and>
     concat (iter_loader rev train_loader) = [0 ..< 128]"
proof -
  have pos: "(0 :: int) < 64" by simp
  have tk: "take 128 [0 ..< 130] = [0 ..< 128]" by (simp add: take_upt)
  from train_loader_batches [OF pos, of "()" "[0 ..< 130]" "[130 ..< 160]" 0 rev]
  obtain tl vl where g: "getDataloader () [0 ..< 130] [130 ..< 160] 64 0 None = Inr (tl, vl)"
    and d: "drop_last tl" and s: "\<not> shuffle tl"
    and n: "length (iter_loader rev tl) = length [0 ..< 130 :: nat] div nat 64"
    and l: "len_loader tl = length [0 ..< 130 :: nat] div nat 64"
    and c: "concat (iter_loader rev tl) = take (nat 64 * (length [0 ..< 130 :: nat] div nat 64)) [0 ..< 130]"
    by blast
  from n have n': "length (iter_loader rev tl) = 2" by simp
  from l have l': "len_loader tl = 2" by simp
  from c tk have c': "concat (iter_loader rev tl) = [0 ..< 128]" by simp
  from g d s n' l' c' show ?thesis by blast
qed

section \<open>Properties of the batches\<close>


lemma val_loop_map:
  assumes "\<not> (fig \<and> bs \<noteq> [] \<and> length (hd bs) < 16)"
  shows "val_loop sc ds bs fig (ls, cs, fs) =
     Inr (ls @ map (\<lambda>b. criterion sc (forward sc (map (\<lambda>p. fst (ds p)) b)) (map (\<lambda>p. snd (ds p)) b)) bs,
          cs @ map (\<lambda>b. length (filter (\<lambda>(l, p). l = p)
                     (zip (map (\<lambda>p. snd (ds p)) b) (argmax sc (forward sc (map (\<lambda>p. fst (ds p)) b)))))) bs,
          fs @ map (\<lambda>b. f1_score sc (map (\<lambda>p. snd (ds p)) b) (argmax sc (forward sc (map (\<lambda>p. fst (ds p)) b)))) bs)"
  using assms
proof (induction bs arbitrary: fig ls cs fs)
  case Nil
  show ?case by simp
next
  case (Cons b bs)
  from Cons.prems have ok: "\<not> (fig \<and> 16 > length (map (\<lambda>p. fst (ds p)) b))" by simp
  have "val_loop sc ds (b # bs) fig (ls, cs, fs) =
        val_loop sc ds bs False
          (ls @ [criterion sc (forward sc (map (\<lambda>p. fst (ds p)) b)) (map (\<lambda>p. snd (ds p)) b)],
           cs @ [length (filter (\<lambda>(l, p). l = p)
                     (zip (map (\<lambda>p. snd (ds p)) b) (argmax sc (forward sc (map (\<lambda>p. fst (ds p)) b)))))],
           fs @ [f1_score sc (map (\<lambda>p. snd (ds p)) b) (argmax sc (forward sc (map (\<lambda>p. fst (ds p)) b)))])"
    using ok by (auto simp add: Let_def)
  also have "\<dots> = Inr (ls @ map (\<lambda>b. criterion sc (forward sc (map (\<lambda>p. fst (ds p)) b)) (map (\<lambda>p. snd (ds p)) b)) (b # bs),
          cs @ map (\<lambda>b. length (filter (\<lambda>(l, p). l = p)
                     (zip (map (\<lambda>p. snd (ds p)) b) (argmax sc (forward sc (map (\<lambda>p. fst (ds p)) b)))))) (b # bs),
          fs @ map (\<lambda>b. f1_score sc (map (\<lambda>p. snd (ds p)) b) (argmax sc (forward sc (map (\<lambda>p. fst (ds p)) b)))) (b # bs))"
    by (subst Cons.IH) simp_all
  finally show ?case .
qed



section \<open>Properties of the validation phase\<close>

text \<open>
  A dataset of 81 samples of one class: the planner gives the first fold 17 validation
  samples and the other folds 16 each.
\<close>

lemma demo81_split:
  "map (\<lambda>f. (length (fst f), snd f))
     (projr (StratifiedKFold_split 5 False (\<lambda>k xs. xs) (\<lambda>i. 99) [0 ..< 81] (replicate 81 (0 :: int)))) =
   [(64, [0 ..< 17]), (65, [17 ..< 33]), (65, [33 ..< 49]), (65, [49 ..< 65]), (65, [65 ..< 81])]"
  by code_simp

lemma val_loader_of:
  "0 < bs \<Longrightarrow>
   (case getDataloader ds train_idx valid_idx bs nw None of
      Inl e \<Rightarrow> Inl e
    | Inr (train_loader, val_loader) \<Rightarrow> g val_loader) =
   g \<lparr>dataset = valid_idx, batch_size = nat bs, num_workers = nw, sampler = None,
      drop_last = True, shuffle = False\<rparr>"
  by (simp add: getDataloader_Inr)

lemma iter_17: "batch_sampler 16 True [0 ..< 17] [] = [[0 ..< 16]]"
  by code_simp

lemma iter_16: "batch_sampler 16 True [0 ..< 16] [] = [[0 ..< 16]]"
  by code_simp

lemma iter_17_33: "batch_sampler 16 True [17 ..< 33] [] = [[17 ..< 33]]"
  by code_simp

lemma all_correct:
  "length (filter (\<lambda>(l, p). l = p) (zip (map (\<lambda>p. 0 :: int) b) (map (\<lambda>x. 0) b))) = length b"
  by (induction b) simp_all

lemma demo_sure_batch:
  "length b = 16 \<Longrightarrow>
   val_loop demo_sure demo_one_class [b] True ([], [], []) = Inr ([1 / 2], [16], [1])"
  using all_correct [of b]
  by (simp add: demo_sure_def demo_one_class_def Let_def)

text \<open>
  Claim C4, evaluated where the code departs from it. The first fold of the 81-sample
  dataset has 17 validation samples; with batches of 16 the loader yields one batch.
  With a network that is right on every sample and \<^verbatim>\<open>len(val_set)\<close> equal to 16 (the
  validation part of the preliminary split of line 191), the reported loss and F1 are
  the sums of the batch values divided by the number of batches, and the reported
  accuracy is 16 / 16: the correct count divided by \<^verbatim>\<open>len(val_set)\<close>, not by the 17
  samples of the fold's validation subset.
\<close>

theorem validation_accuracy_denominator:
  "(case getDataloader () [17 ..< 81] [0 ..< 17] 16 0 None of
      Inl e \<Rightarrow> Inl e
    | Inr (train_loader, val_loader) \<Rightarrow>
        validate_epoch demo_sure demo_one_class (\<lambda>xs. xs) val_loader 16) =
     Inr (Some \<lparr>val_loss = 1 / 2, val_acc = 1, val_f1 = 1\<rparr>) \<and>
   length [0 ..< 17 :: nat] = 17 \<and> 16 / real (length [0 ..< 17 :: nat]) \<noteq> 1"
proof -
  have "validate_epoch demo_sure demo_one_class (\<lambda>xs. xs)
          \<lparr>dataset = [0 ..< 17], batch_size = nat 16, num_workers = 0, sampler = None,
           drop_last = True, shuffle = False\<rparr> 16 =
        Inr (Some \<lparr>val_loss = 1 / 2, val_acc = 1, val_f1 = 1\<rparr>)"
    by (simp add: validate_epoch_def iter_loader_def sampled_def iter_17 demo_sure_batch
        len_loader_def len_sampler_def del: val_loop.simps)
  then show ?thesis
    by (simp add: val_loader_of)
qed

text \<open>
  Claim C10, evaluated where the code departs from it. For the same fold the
  validation phase gives, for every network, dataset and \<^verbatim>\<open>len(val_set)\<close>, the result it
  gives without the 17th sample: the sample of the incomplete batch is never predicted
  and adds to none of the three sums. The accuracy of the first and of the second fold
  is 16 divided by \<^verbatim>\<open>len(val_set)\<close>, one number for the whole run, so it cannot be the
  size of the validation subset for both folds (17 and 16).
\<close>

theorem validation_drops_last_batch:
  "(case getDataloader ds [17 ..< 81] [0 ..< 17] 16 0 None of
      Inl e \<Rightarrow> Inl e
    | Inr (train_loader, val_loader) \<Rightarrow> validate_epoch sc items rp val_loader L) =
   (case getDataloader ds [16 ..< 81] [0 ..< 16] 16 0 None of
      Inl e \<Rightarrow> Inl e
    | Inr (train_loader, val_loader) \<Rightarrow> validate_epoch sc items rp val_loader L) \<and>
   (case getDataloader ds [17 ..< 81] [0 ..< 17] 16 0 None of
      Inl e \<Rightarrow> Inl e
    | Inr (train_loader, val_loader) \<Rightarrow>
        validate_epoch demo_sure demo_one_class rp val_loader L) =
     Inr (if L = 0 then None else Some \<lparr>val_loss = 1 / 2, val_acc = 16 / real L, val_f1 = 1\<rparr>) \<and>
   (case getDataloader ds ([0 ..< 17] @ [33 ..< 81]) [17 ..< 33] 16 0 None of
      Inl e \<Rightarrow> Inl e
    | Inr (train_loader, val_loader) \<Rightarrow>
        validate_epoch demo_sure demo_one_class rp val_loader L) =
     Inr (if L = 0 then None else Some \<lparr>val_loss = 1 / 2, val_acc = 16 / real L, val_f1 = 1\<rparr>) \<and>
   \<not> (16 / real L = 16 / real (length [0 ..< 17 :: nat]) \<and>
      16 / real L = 16 / real (length [17 ..< 33 :: nat]))"
proof -
  let ?vl = "\<lambda>idx. \<lparr>dataset = idx, batch_size = 16, num_workers = 0, sampler = None,
           drop_last = True, shuffle = False\<rparr> :: nat DataLoader"
  have a: "validate_epoch sc items rp (?vl [0 ..< 17]) L = validate_epoch sc items rp (?vl [0 ..< 16]) L"
    by (simp add: validate_epoch_def iter_loader_def sampled_def iter_17 iter_16
        len_loader_def len_sampler_def del: val_loop.simps split: sum.splits prod.splits)
  have b: "validate_epoch demo_sure demo_one_class rp (?vl [0 ..< 17]) L =
     Inr (if L = 0 then None else Some \<lparr>val_loss = 1 / 2, val_acc = 16 / real L, val_f1 = 1\<rparr>)"
    by (simp add: validate_epoch_def iter_loader_def sampled_def iter_17 demo_sure_batch
        len_loader_def len_sampler_def del: val_loop.simps)
  have c: "validate_epoch demo_sure demo_one_class rp (?vl [17 ..< 33]) L =
     Inr (if L = 0 then None else Some \<lparr>val_loss = 1 / 2, val_acc = 16 / real L, val_f1 = 1\<rparr>)"
    by (simp add: validate_epoch_def iter_loader_def sampled_def iter_17_33 demo_sure_batch
        len_loader_def len_sampler_def del: val_loop.simps)
  have d: "\<not> (16 / real L = 16 / real (length [0 ..< 17 :: nat]) \<and>
      16 / real L = 16 / real (length [17 ..< 33 :: nat]))"
  proof
    assume "16 / real L = 16 / real (length [0 ..< 17 :: nat]) \<and>
      16 / real L = 16 / real (length [17 ..< 33 :: nat])"
    then have "(16 :: real) / real (length [0 ..< 17 :: nat]) = 16 / real (length [17 ..< 33 :: nat])"
      by metis
    then show False by simp
  qed
  have e: "(case getDataloader ds train_idx valid_idx 16 0 None of
      Inl e \<Rightarrow> Inl e
    | Inr (train_loader, val_loader) \<Rightarrow> g val_loader) = g (?vl valid_idx)"
    for train_idx valid_idx and g :: "nat DataLoader \<Rightarrow> error + metrics option"
    using val_loader_of [where bs = 16 and ds = ds and train_idx = train_idx
        and valid_idx = valid_idx and nw = 0 and g = g] by simp
  from a b c d show ?thesis
    by (simp only: e) simp
qed

subsection \<open>The aggregates of every fold\<close>

lemma val_loop_assert:
  "bs \<noteq> [] \<Longrightarrow> length (hd bs) < 16 \<Longrightarrow> val_loop sc ds bs True items = Inl AssertionError"
  by (cases bs; cases items) (auto simp add: Let_def)

lemma uniform_batches_eq:
  assumes "0 < n" and "\<forall>b \<in> set xs. length b = n" and "\<forall>b \<in> set ys. length b = n"
    and "concat xs = concat ys"
  shows "xs = ys"
  using assms(2,3,4)
proof (induction xs arbitrary: ys)
  case Nil
  then show ?case using assms(1) by (cases ys) auto
next
  case (Cons x xs)
  show ?case
  proof (cases ys)
    case Nil
    with Cons.prems assms(1) show ?thesis by auto
  next
    case (Cons y ys')
    with Cons.prems have "x @ concat xs = y @ concat ys'" and "length x = length y" by simp_all
    then have "x = y" and "concat xs = concat ys'" by simp_all
    with Cons.IH [of ys'] Cons.prems Cons show ?thesis by simp
  qed
qed

lemma batch_sampler_drop_tail:
  assumes "0 < bs" and "length xs mod bs = 0" and "length tail < bs"
  shows "batch_sampler bs True (xs @ tail) [] = batch_sampler bs True xs []"
proof (rule uniform_batches_eq [OF assms(1)])
  show "\<forall>b \<in> set (batch_sampler bs True (xs @ tail) []). length b = bs"
    using batch_sampler_drop_sizes [of "[]" bs] assms(1) by simp
  show "\<forall>b \<in> set (batch_sampler bs True xs []). length b = bs"
    using batch_sampler_drop_sizes [of "[]" bs] assms(1) by simp
  have d: "(length xs + length tail) div bs = length xs div bs"
    using assms(2,3) by (metis add.commute div_mult_mod_eq add_cancel_right_right div_mult_self3 div_less add.right_neutral assms(1) less_numeral_extra(3) mult.commute)
  have m: "bs * (length xs div bs) = length xs"
    using assms(2) by (metis add.right_neutral mult_div_mod_eq)
  show "concat (batch_sampler bs True (xs @ tail) []) = concat (batch_sampler bs True xs [])"
    using batch_sampler_drop_concat [OF assms(1), of "[]" "xs @ tail"]
      batch_sampler_drop_concat [OF assms(1), of "[]" xs] assms(1)
    by (simp add: d m)
qed

lemma getDataloader_val:
  assumes "getDataloader d train_idx valid_idx bsz nw smp = Inr (trl, vl)"
  shows "0 < bsz" and "vl = \<lparr>dataset = valid_idx, batch_size = nat bsz, num_workers = nw, sampler = None,
           drop_last = True, shuffle = False\<rparr>"
  using assms
  by (auto simp add: getDataloader_def DataLoader_def Subset_def split: if_splits)

text \<open>
  When the validation phase of a fold returns real numbers, the loader has
  yielded \<open>valid_count div batch_size\<close> batches, \<^verbatim>\<open>len(val_loader)\<close> is that number,
  the reported loss and F1 are the sums of the batch losses and batch F1 scores divided
  by it, and the reported accuracy is the sum of the correct counts of the batches
  divided by \<^verbatim>\<open>len(val_set)\<close>.
\<close>

theorem validate_epoch_aggregates:
  assumes "getDataloader d train_idx valid_idx bsz nw smp = Inr (trl, vl)"
    and "validate_epoch sc ds rp vl L = Inr (Some m)"
  shows "iter_loader rp vl = batch_sampler (nat bsz) True valid_idx [] \<and>
    length (iter_loader rp vl) = length valid_idx div nat bsz \<and>
    len_loader vl = length (iter_loader rp vl) \<and>
    val_loss m =
      sum_list (map (\<lambda>b. criterion sc (forward sc (map (\<lambda>p. fst (ds p)) b)) (map (\<lambda>p. snd (ds p)) b))
                  (iter_loader rp vl)) / real (length (iter_loader rp vl)) \<and>
    val_f1 m =
      sum_list (map (\<lambda>b. f1_score sc (map (\<lambda>p. snd (ds p)) b) (argmax sc (forward sc (map (\<lambda>p. fst (ds p)) b))))
                  (iter_loader rp vl)) / real (length (iter_loader rp vl)) \<and>
    val_acc m =
      real (sum_list (map (\<lambda>b. length (filter (\<lambda>(l, p). l = p)
                     (zip (map (\<lambda>p. snd (ds p)) b) (argmax sc (forward sc (map (\<lambda>p. fst (ds p)) b))))))
                  (iter_loader rp vl))) / real L"
proof -
  note v = getDataloader_val [OF assms(1)]
  from v(1) have pos: "0 < nat bsz" by simp
  let ?bs = "iter_loader rp vl"
  have it: "?bs = batch_sampler (nat bsz) True valid_idx []"
    by (simp add: v(2) iter_loader_def sampled_def)
  have len: "length ?bs = length valid_idx div nat bsz"
    using batch_sampler_drop_length [OF pos, of "[]" valid_idx] pos by (simp add: it)
  have "len_loader vl = length valid_idx div nat bsz"
    by (simp add: v(2) len_loader_def len_sampler_def)
  with len have ll: "len_loader vl = length ?bs" by simp
  have ok: "\<not> (True \<and> ?bs \<noteq> [] \<and> length (hd ?bs) < 16)"
  proof
    assume "True \<and> ?bs \<noteq> [] \<and> length (hd ?bs) < 16"
    then have "val_loop sc ds ?bs True ([], [], []) = Inl AssertionError"
      by (simp add: val_loop_assert)
    with assms(2) show False by (simp add: validate_epoch_def)
  qed
  note closed = val_loop_map [OF ok, of sc ds "[]" "[]" "[]"]
  from assms(2) have
    "val_loss m =
      sum_list (map (\<lambda>b. criterion sc (forward sc (map (\<lambda>p. fst (ds p)) b)) (map (\<lambda>p. snd (ds p)) b)) ?bs)
        / real (length ?bs) \<and>
    val_f1 m =
      sum_list (map (\<lambda>b. f1_score sc (map (\<lambda>p. snd (ds p)) b) (argmax sc (forward sc (map (\<lambda>p. fst (ds p)) b)))) ?bs)
        / real (length ?bs) \<and>
    val_acc m =
      real (sum_list (map (\<lambda>b. length (filter (\<lambda>(l, p). l = p)
                     (zip (map (\<lambda>p. snd (ds p)) b) (argmax sc (forward sc (map (\<lambda>p. fst (ds p)) b)))))) ?bs))
        / real L"
    unfolding validate_epoch_def closed ll
    by (auto split: if_splits)
  with it len ll show ?thesis by simp
qed

theorem validate_epoch_aggregates_witness:
  "\<exists>trl vl. getDataloader () [16 ..< 81] [0 ..< 16] 16 0 None = Inr (trl, vl) \<and>
     validate_epoch demo_scorer demo_dataset (\<lambda>xs. xs) vl 20 =
       Inr (Some \<lparr>val_loss = 1 / 2, val_acc = 8 / 20, val_f1 = 1 / 4\<rparr>) \<and>
     length (iter_loader (\<lambda>xs. xs) vl) = 1 \<and> len_loader vl = 1"
proof -
  let ?vl = "\<lparr>dataset = [0 ..< 16], batch_size = 16, num_workers = 0, sampler = None,
           drop_last = True, shuffle = False\<rparr> :: nat DataLoader"
  let ?tl = "\<lparr>dataset = [16 ..< 81], batch_size = 16, num_workers = 0, sampler = None,
           drop_last = True, shuffle = False\<rparr> :: nat DataLoader"
  have g: "getDataloader () [16 ..< 81] [0 ..< 16] 16 0 None = Inr (?tl, ?vl)"
    using getDataloader_Inr [of 16 "()" "[16 ..< 81]" "[0 ..< 16]" 0 None] by simp
  have b: "batch_sampler 16 True [0 ..< 16] [] = [[0 ..< 16]]" by code_simp
  have l: "val_loop demo_scorer demo_dataset [[0 ..< 16]] True ([], [], []) = Inr ([1 / 2], [8], [1 / 4])"
    by (simp add: demo_scorer_def demo_dataset_def upt_rec)
  have e: "validate_epoch demo_scorer demo_dataset (\<lambda>xs. xs) ?vl 20 =
       Inr (Some \<lparr>val_loss = 1 / 2, val_acc = 8 / 20, val_f1 = 1 / 4\<rparr>)"
    by (simp add: validate_epoch_def iter_loader_def sampled_def b l len_loader_def len_sampler_def
        del: val_loop.simps)
  note inst = validate_epoch_aggregates [OF g e]
  from inst [THEN conjunct2, THEN conjunct1]
  have n: "length (iter_loader (\<lambda>xs. xs) ?vl) = 1" by simp
  from inst [THEN conjunct2, THEN conjunct2, THEN conjunct1] n
  have "len_loader ?vl = 1" by simp
  with g e n show ?thesis by blast
qed

text \<open>
  The validation loader drops the last incomplete batch: validation
  samples beyond the last full batch change none of the three reported numbers,
  whatever the network and the dataset are.
\<close>

theorem validation_ignores_incomplete_batch:
  assumes "0 < bsz" and "length xs mod nat bsz = 0" and "length tail < nat bsz"
  shows "(case getDataloader d train_idx (xs @ tail) bsz nw None of
            Inl e \<Rightarrow> Inl e
          | Inr (train_loader, val_loader) \<Rightarrow> validate_epoch sc ds rp val_loader L) =
         (case getDataloader d train_idx' xs bsz nw None of
            Inl e \<Rightarrow> Inl e
          | Inr (train_loader, val_loader) \<Rightarrow> validate_epoch sc ds rp val_loader L)"
proof -
  from assms(1) have pos: "0 < nat bsz" by simp
  have t: "batch_sampler (nat bsz) True (xs @ tail) [] = batch_sampler (nat bsz) True xs []"
    by (rule batch_sampler_drop_tail [OF pos assms(2,3)])
  have dv: "(length xs + length tail) div nat bsz = length xs div nat bsz"
    using batch_sampler_drop_length [OF pos, of "[]" "xs @ tail"]
      batch_sampler_drop_length [OF pos, of "[]" xs] pos t by simp
  have "validate_epoch sc ds rp
          \<lparr>dataset = xs @ tail, batch_size = nat bsz, num_workers = nw, sampler = None,
           drop_last = True, shuffle = False\<rparr> L =
        validate_epoch sc ds rp
          \<lparr>dataset = xs, batch_size = nat bsz, num_workers = nw, sampler = None,
           drop_last = True, shuffle = False\<rparr> L"
    by (simp add: validate_epoch_def iter_loader_def sampled_def t dv len_loader_def len_sampler_def
        del: val_loop.simps split: sum.splits prod.splits)
  then show ?thesis
    by (simp add: getDataloader_Inr [OF assms(1)])
qed

theorem validation_ignores_incomplete_batch_witness:
  "(case getDataloader () [20 ..< 81] ([0 ..< 16] @ [16, 17, 18]) 16 0 None of
      Inl e \<Rightarrow> Inl e
    | Inr (train_loader, val_loader) \<Rightarrow> validate_epoch demo_scorer demo_dataset (\<lambda>xs. xs) val_loader 19) =
   Inr (Some \<lparr>val_loss = 1 / 2, val_acc = 8 / 19, val_f1 = 1 / 4\<rparr>)"
proof -
  have pos: "(0 :: int) < 16" by simp
  have m: "length [0 ..< 16 :: nat] mod nat 16 = 0" by simp
  have s: "length [16, 17, 18 :: nat] < nat 16" by simp
  have b: "batch_sampler 16 True [0 ..< 16] [] = [[0 ..< 16]]" by code_simp
  have l: "val_loop demo_scorer demo_dataset [[0 ..< 16]] True ([], [], []) = Inr ([1 / 2], [8], [1 / 4])"
    by (simp add: demo_scorer_def demo_dataset_def upt_rec)
  have e: "validate_epoch demo_scorer demo_dataset (\<lambda>xs. xs)
         \<lparr>dataset = [0 ..< 16], batch_size = 16, num_workers = 0, sampler = None,
           drop_last = True, shuffle = False\<rparr> 19 =
       Inr (Some \<lparr>val_loss = 1 / 2, val_acc = 8 / 19, val_f1 = 1 / 4\<rparr>)"
    by (simp add: validate_epoch_def iter_loader_def sampled_def b l len_loader_def len_sampler_def
        del: val_loop.simps)
  have "(case getDataloader () [16 ..< 81] [0 ..< 16] 16 0 None of
      Inl e \<Rightarrow> Inl e
    | Inr (train_loader, val_loader) \<Rightarrow> validate_epoch demo_scorer demo_dataset (\<lambda>xs. xs) val_loader 19) =
   Inr (Some \<lparr>val_loss = 1 / 2, val_acc = 8 / 19, val_f1 = 1 / 4\<rparr>)"
    using e getDataloader_Inr [of 16 "()" "[16 ..< 81]" "[0 ..< 16]" 0 None] by simp
  with validation_ignores_incomplete_batch [OF pos m s, where d = "()" and train_idx = "[20 ..< 81]"
      and nw = 0 and sc = demo_scorer and ds = demo_dataset and rp = "\<lambda>xs. xs" and L = 19
      and train_idx' = "[16 ..< 81]"]
  show ?thesis by (simp only:)
qed

section \<open>Properties of the fold planner\<close>

subsection \<open>The allocation of a class to the folds\<close>

lemma residue_unique:
  fixes n i j :: nat
  assumes "0 < n" and "i < n"
  shows "(i \<le> j \<and> (j - i) mod n = 0) \<longleftrightarrow> i = j mod n"
proof
  assume h: "i \<le> j \<and> (j - i) mod n = 0"
  then have le: "i \<le> j" and z: "(j - i) mod n = 0" by simp_all
  from z have "n dvd (j - i)" by (rule mod_0_imp_dvd)
  then obtain q where "j - i = n * q" by (auto simp add: dvd_def)
  with le have "j = i + n * q" by simp
  then show "i = j mod n" using assms(2) by simp
next
  assume "i = j mod n"
  then show "i \<le> j \<and> (j - i) mod n = 0"
    by (simp add: minus_mod_eq_mult_div)
qed

lemma one_residue:
  fixes n j :: nat
  assumes "0 < n"
  shows "sum_list (map (\<lambda>i. if i \<le> j \<and> (j - i) mod n = 0 then 1 else 0) [0 ..< n]) = (1 :: nat)"
proof -
  have "map (\<lambda>i. if i \<le> j \<and> (j - i) mod n = 0 then 1 else 0) [0 ..< n] =
        map (\<lambda>i. if i = j mod n then 1 else (0 :: nat)) [0 ..< n]"
    using residue_unique [OF assms] by (intro map_cong) auto
  moreover have "sum_list (map (\<lambda>i. if i = j mod n then 1 else (0 :: nat)) [0 ..< n]) =
        (\<Sum>i \<in> {0 ..< n}. if i = j mod n then 1 else 0)"
    by (simp add: interv_sum_list_conv_sum_set_nat)
  moreover have "(\<Sum>i \<in> {0 ..< n}. if i = j mod n then 1 else (0 :: nat)) = 1"
    using assms by simp
  ultimately show ?thesis by (simp only:)
qed

lemma strided_count:
  "count_list (strided i n xs) k =
     length (filter (\<lambda>j. i \<le> j \<and> (j - i) mod n = 0 \<and> xs ! j = k) [0 ..< length xs])"
proof -
  have "count_list (map f js) k = length (filter (\<lambda>j. f j = k) js)" for f :: "nat \<Rightarrow> 'a" and js
    by (induction js) simp_all
  then show ?thesis
    by (simp add: strided_def conj_commute conj_left_commute cong: conj_cong)
qed

lemma sum_filter_lengths:
  fixes n :: nat
  assumes "0 < n"
  shows "sum_list (map (\<lambda>i. length (filter (\<lambda>j. i \<le> j \<and> (j - i) mod n = 0 \<and> R j) js)) [0 ..< n]) =
         length (filter R js)"
proof (induction js)
  case Nil
  show ?case by (simp add: sum_list_0)
next
  case (Cons j js)
  have "sum_list (map (\<lambda>i. length (filter (\<lambda>j. i \<le> j \<and> (j - i) mod n = 0 \<and> R j) (j # js))) [0 ..< n]) =
        sum_list (map (\<lambda>i. (if R j then (if i \<le> j \<and> (j - i) mod n = 0 then 1 else 0) else 0) +
                    length (filter (\<lambda>j. i \<le> j \<and> (j - i) mod n = 0 \<and> R j) js)) [0 ..< n])"
    by (intro arg_cong [where f = sum_list] map_cong) auto
  also have "\<dots> = sum_list (map (\<lambda>i. if R j then (if i \<le> j \<and> (j - i) mod n = 0 then 1 else 0) else 0) [0 ..< n]) +
        sum_list (map (\<lambda>i. length (filter (\<lambda>j. i \<le> j \<and> (j - i) mod n = 0 \<and> R j) js)) [0 ..< n])"
    by (simp add: sum_list_addf)
  also have "sum_list (map (\<lambda>i. if R j then (if i \<le> j \<and> (j - i) mod n = 0 then 1 else 0) else 0) [0 ..< n]) =
        (if R j then 1 else (0 :: nat))"
    using one_residue [OF assms, of j] by (simp add: sum_list_0)
  finally show ?case using Cons.IH by simp
qed

lemma allocation_sum:
  assumes "0 < ns"
  shows "sum_list (map (\<lambda>i. allocation ns ys i k) [0 ..< ns]) = count_list ys k"
proof -
  have "count_list ys k = length (filter (\<lambda>j. ys ! j = k) [0 ..< length ys])"
  proof -
    have "count_list (map f js) k = length (filter (\<lambda>j. f j = k) js)" for f :: "nat \<Rightarrow> nat" and js
      by (induction js) simp_all
    from this [of "\<lambda>j. ys ! j" "[0 ..< length ys]"] show ?thesis by (simp add: map_nth)
  qed
  then show ?thesis
    using sum_filter_lengths [OF assms, of "\<lambda>j. ys ! j = k" "[0 ..< length ys]"]
    by (simp add: allocation_def strided_count)
qed

lemma folds_for_class_length:
  assumes "0 < ns"
  shows "length (folds_for_class ns ys k) = count_list ys k"
  using allocation_sum [OF assms, of ys k]
  by (simp add: folds_for_class_def length_concat o_def)

lemma folds_for_class_range: "x \<in> set (folds_for_class ns ys k) \<Longrightarrow> x < ns"
  by (auto simp add: folds_for_class_def)

lemma count_list_insort:
  "count_list (insort x xs) k = count_list (x # xs) k"
  by (induction xs) auto

lemma count_list_sort: "count_list (sort xs) k = count_list xs k"
  by (induction xs) (simp_all add: count_list_insort)

lemma mask_count: "length (filter (\<lambda>b. b) (map (\<lambda>c. c = k) ye)) = count_list ye k"
  by (induction ye) simp_all

subsection \<open>The fold number of every sample\<close>

lemma assign_masked_length: "length (assign_masked ts ms vs) = length ts"
  by (induction ts ms vs rule: assign_masked.induct) simp_all

lemma assign_masked_nth:
  assumes "length ms = length ts" and "length (filter (\<lambda>b. b) ms) \<le> length vs" and "p < length ts"
  shows "assign_masked ts ms vs ! p =
     (if ms ! p then vs ! length (filter (\<lambda>b. b) (take p ms)) else ts ! p)"
  using assms
proof (induction ts ms vs arbitrary: p rule: assign_masked.induct)
  case (1 ms vs)
  then show ?case by simp
next
  case (2 t ts vs)
  then show ?case by simp
next
  case (3 t ts ms)
  then show ?case by simp
next
  case (4 t ts ms v vs)
  show ?case
  proof (cases p)
    case 0
    then show ?thesis by simp
  next
    case (Suc q)
    with 4 show ?thesis by simp
  qed
next
  case (5 t ts ms vs)
  show ?case
  proof (cases p)
    case 0
    then show ?thesis by simp
  next
    case (Suc q)
    with 5 show ?thesis by simp
  qed
qed

lemma rank_mask:
  "p < length ye \<Longrightarrow>
   length (filter (\<lambda>b. b) (take p (map (\<lambda>c. c = k) ye))) = count_list (take p ye) k"
  by (simp only: take_map mask_count)

lemma class_rank_less:
  assumes "p < length ye"
  shows "class_rank ye p < count_list ye (ye ! p)"
proof -
  have "ye = take p ye @ ye ! p # drop (Suc p) ye"
    using assms by (simp add: id_take_nth_drop)
  then have "count_list ye (ye ! p) = count_list (take p ye @ ye ! p # drop (Suc p) ye) (ye ! p)"
    by simp
  also have "\<dots> = count_list (take p ye) (ye ! p) + 1 + count_list (drop (Suc p) ye) (ye ! p)"
    by (simp add: count_list_append)
  finally show ?thesis by (simp add: class_rank_def)
qed

lemma class_loop_nth:
  assumes "0 < ns" and "length tf = length ye"
  shows "\<exists>tf'. class_loop ns False rng ye (sort ye) ks tf = Inr tf' \<and> length tf' = length ye \<and>
     (\<forall>p < length ye. tf' ! p =
        (if ye ! p \<in> set ks then folds_for_class ns (sort ye) (ye ! p) ! class_rank ye p else tf ! p))"
  using assms(2)
proof (induction ks arbitrary: tf)
  case Nil
  then show ?case by simp
next
  case (Cons k ks)
  let ?vs = "folds_for_class ns (sort ye) k"
  let ?ms = "map (\<lambda>c. c = k) ye"
  let ?tf1 = "assign_masked tf ?ms ?vs"
  have cnt: "length (filter (\<lambda>b. b) ?ms) = length ?vs"
    by (simp only: mask_count folds_for_class_length [OF assms(1)] count_list_sort)
  then have step: "masked_assign tf ?ms ?vs = Inr ?tf1"
    by (simp add: masked_assign_def)
  have len1: "length ?tf1 = length ye"
    using Cons.prems by (simp add: assign_masked_length)
  from Cons.IH [OF len1] obtain tf' where
    run: "class_loop ns False rng ye (sort ye) ks ?tf1 = Inr tf'" and len': "length tf' = length ye"
    and nth': "\<forall>p < length ye. tf' ! p =
        (if ye ! p \<in> set ks then folds_for_class ns (sort ye) (ye ! p) ! class_rank ye p else ?tf1 ! p)"
    by blast
  have nth1: "?tf1 ! p = (if ye ! p = k then ?vs ! class_rank ye p else tf ! p)" if "p < length ye" for p
  proof -
    have "?tf1 ! p = (if ?ms ! p then ?vs ! length (filter (\<lambda>b. b) (take p ?ms)) else tf ! p)"
      using that Cons.prems cnt by (intro assign_masked_nth) simp_all
    then show ?thesis
      using that by (auto simp add: rank_mask class_rank_def)
  qed
  have "class_loop ns False rng ye (sort ye) (k # ks) tf = Inr tf'"
    using step run by simp
  moreover have "\<forall>p < length ye. tf' ! p =
        (if ye ! p \<in> set (k # ks) then folds_for_class ns (sort ye) (ye ! p) ! class_rank ye p else tf ! p)"
    using nth' nth1 by auto
  ultimately show ?case using len' by blast
qed

lemma classes_seen_set: "set (classes_seen seen ys) = set seen \<union> set ys"
  by (induction ys arbitrary: seen) auto

lemma index_of_less: "y \<in> set cs \<Longrightarrow> index_of cs y < length cs"
  by (induction cs) auto

lemma index_of_nth: "y \<in> set cs \<Longrightarrow> cs ! index_of cs y = y"
  by (induction cs) auto

lemma encode_classes_less:
  assumes "p < length y"
  shows "encode_classes y ! p < length (classes_seen [] y)"
proof -
  have "y ! p \<in> set (classes_seen [] y)"
    using assms by (simp add: classes_seen_set)
  then show ?thesis
    using assms by (simp add: encode_classes_def index_of_less)
qed

lemma count_list_map_inj:
  assumes "\<forall>x \<in> set xs. f x = f c \<longrightarrow> x = c"
  shows "count_list (map f xs) (f c) = count_list xs c"
  using assms by (induction xs) auto

lemma encode_classes_count:
  assumes "c \<in> set y"
  shows "count_list (encode_classes y) (index_of (classes_seen [] y) c) = count_list y c"
  unfolding encode_classes_def
proof (rule count_list_map_inj, rule ballI, rule impI)
  fix x assume x: "x \<in> set y"
    and eq: "index_of (classes_seen [] y) x = index_of (classes_seen [] y) c"
  from x assms have "x \<in> set (classes_seen [] y)" "c \<in> set (classes_seen [] y)"
    by (simp_all add: classes_seen_set)
  then show "x = c"
    using eq index_of_nth by metis
qed

lemma some_class_large:
  assumes "0 < ns" and "ns \<le> count_list y c"
  shows "\<not> list_all (\<lambda>cnt. ns > cnt)
           (map (count_list (encode_classes y)) [0 ..< length (classes_seen [] y)])"
proof -
  from assms have c: "c \<in> set y"
    by (metis count_list_0_iff not_less less_le_trans)
  then have k: "index_of (classes_seen [] y) c < length (classes_seen [] y)"
    by (simp add: index_of_less classes_seen_set)
  have "\<not> ns > count_list (encode_classes y) (index_of (classes_seen [] y) c)"
    using assms(2) by (simp add: encode_classes_count [OF c])
  with k show ?thesis
    by (auto simp add: list_all_iff)
qed

lemma make_test_folds_nth:
  assumes "0 < ns" and "ns \<le> count_list y c"
  shows "\<exists>tf. make_test_folds ns False rng ne y = Inr tf \<and> length tf = length y \<and>
     (\<forall>p < length y. tf ! p =
        folds_for_class ns (sort (encode_classes y)) (encode_classes y ! p) ! class_rank (encode_classes y) p)"
proof -
  let ?ye = "encode_classes y"
  have len: "length (map ne [0 ..< length y]) = length ?ye"
    by (simp add: encode_classes_def)
  from class_loop_nth [OF assms(1) len, of rng "[0 ..< length (classes_seen [] y)]"]
  obtain tf where run: "class_loop ns False rng ?ye (sort ?ye) [0 ..< length (classes_seen [] y)]
        (map ne [0 ..< length y]) = Inr tf"
    and l: "length tf = length ?ye"
    and nth: "\<forall>p < length ?ye. tf ! p =
        (if ?ye ! p \<in> set [0 ..< length (classes_seen [] y)]
         then folds_for_class ns (sort ?ye) (?ye ! p) ! class_rank ?ye p
         else map ne [0 ..< length y] ! p)"
    by blast
  have "make_test_folds ns False rng ne y = Inr tf"
    using some_class_large [OF assms] run by (simp add: make_test_folds_def Let_def)
  moreover have "length tf = length y" using l by (simp add: encode_classes_def)
  moreover have "\<forall>p < length y. tf ! p =
        folds_for_class ns (sort ?ye) (?ye ! p) ! class_rank ?ye p"
  proof (intro allI impI)
    fix p assume p: "p < length y"
    then have "p < length ?ye" by (simp add: encode_classes_def)
    moreover have "?ye ! p \<in> set [0 ..< length (classes_seen [] y)]"
      using encode_classes_less [OF p] by simp
    ultimately show "tf ! p = folds_for_class ns (sort ?ye) (?ye ! p) ! class_rank ?ye p"
      using nth by simp
  qed
  ultimately show ?thesis by blast
qed

lemma make_test_folds_range:
  assumes "make_test_folds ns False rng ne y = Inr tf" and "0 < ns" and "ns \<le> count_list y c"
    and "p < length y"
  shows "tf ! p < ns"
proof -
  let ?ye = "encode_classes y"
  from make_test_folds_nth [OF assms(2,3), of rng ne] assms(1,4)
  have nth: "tf ! p = folds_for_class ns (sort ?ye) (?ye ! p) ! class_rank ?ye p"
    by auto
  have p: "p < length ?ye" using assms(4) by (simp add: encode_classes_def)
  have "class_rank ?ye p < length (folds_for_class ns (sort ?ye) (?ye ! p))"
    using class_rank_less [OF p]
    by (simp add: folds_for_class_length [OF assms(2)] count_list_sort)
  then have "tf ! p \<in> set (folds_for_class ns (sort ?ye) (?ye ! p))"
    by (simp add: nth)
  then show ?thesis by (rule folds_for_class_range)
qed

subsection \<open>The five folds\<close>

lemma make_test_folds_deterministic:
  assumes "0 < ns" and "ns \<le> count_list y c"
  shows "make_test_folds ns False rng ne y = make_test_folds ns False rng' ne' y"
proof -
  from make_test_folds_nth [OF assms, of rng ne] obtain tf where
    a: "make_test_folds ns False rng ne y = Inr tf" and la: "length tf = length y"
    and na: "\<forall>p < length y. tf ! p =
        folds_for_class ns (sort (encode_classes y)) (encode_classes y ! p) ! class_rank (encode_classes y) p"
    by blast
  from make_test_folds_nth [OF assms, of rng' ne'] obtain tf' where
    b: "make_test_folds ns False rng' ne' y = Inr tf'" and lb: "length tf' = length y"
    and nb: "\<forall>p < length y. tf' ! p =
        folds_for_class ns (sort (encode_classes y)) (encode_classes y ! p) ! class_rank (encode_classes y) p"
    by blast
  have "tf = tf'"
    using la lb na nb by (intro nth_equalityI) simp_all
  with a b show ?thesis by simp
qed

lemma split_deterministic:
  assumes "0 < ns" and "ns \<le> count_list y c"
  shows "StratifiedKFold_split ns False rng ne X y = StratifiedKFold_split ns False rng' ne' X y"
  using make_test_folds_deterministic [OF assms, of rng ne rng' ne']
  by (simp add: StratifiedKFold_split_def)

lemma split_folds:
  assumes "length X = length y" and "1 < ns" and "ns \<le> count_list y c"
  shows "\<exists>tf. make_test_folds ns False rng ne y = Inr tf \<and> length tf = length y \<and>
     (\<forall>p < length y. tf ! p < ns) \<and>
     StratifiedKFold_split ns False rng ne X y =
       Inr (map (\<lambda>i. (filter (\<lambda>p. tf ! p \<noteq> i) [0 ..< length X],
                       filter (\<lambda>p. tf ! p = i) [0 ..< length X])) [0 ..< ns])"
proof -
  from assms(2) have pos: "0 < ns" by simp
  from make_test_folds_nth [OF pos assms(3), of rng ne] obtain tf where
    a: "make_test_folds ns False rng ne y = Inr tf" and la: "length tf = length y"
    by blast
  have r: "\<forall>p < length y. tf ! p < ns"
    using make_test_folds_range [OF a pos assms(3)] by blast
  have "count_list y c \<le> length y" by (rule count_le_length)
  with assms(3) have "ns \<le> length X" using assms(1) by simp
  with assms(1,2) a have "StratifiedKFold_split ns False rng ne X y =
       Inr (map (\<lambda>i. (filter (\<lambda>p. tf ! p \<noteq> i) [0 ..< length X],
                       filter (\<lambda>p. tf ! p = i) [0 ..< length X])) [0 ..< ns])"
    by (simp add: StratifiedKFold_split_def)
  with a la r show ?thesis by blast
qed

subsection \<open>Datasets the planner refuses\<close>

lemma classes_seen_distinct: "distinct seen \<Longrightarrow> distinct (classes_seen seen ys)"
  by (induction ys arbitrary: seen) auto

lemma index_of_nth_distinct:
  "distinct cs \<Longrightarrow> k < length cs \<Longrightarrow> index_of cs (cs ! k) = k"
proof (induction cs arbitrary: k)
  case Nil
  then show ?case by simp
next
  case (Cons c cs)
  show ?case
  proof (cases k)
    case 0
    then show ?thesis by simp
  next
    case (Suc j)
    with Cons.prems have "cs ! j \<in> set cs" by simp
    with Cons.prems have "c \<noteq> cs ! j" by auto
    with Cons Suc show ?thesis by simp
  qed
qed

lemma all_classes_small:
  assumes "\<forall>c. count_list y c < ns"
  shows "list_all (\<lambda>cnt. ns > cnt)
           (map (count_list (encode_classes y)) [0 ..< length (classes_seen [] y)])"
proof -
  let ?cs = "classes_seen [] y"
  have "count_list (encode_classes y) k < ns" if k: "k < length ?cs" for k
  proof -
    have d: "distinct ?cs" by (simp add: classes_seen_distinct)
    from k have "?cs ! k \<in> set y"
      using classes_seen_set [of "[]" y] nth_mem [OF k] by simp
    from encode_classes_count [OF this]
    have "count_list (encode_classes y) k = count_list y (?cs ! k)"
      by (simp add: index_of_nth_distinct [OF d k])
    with assms show ?thesis by simp
  qed
  then show ?thesis by (simp add: list_all_iff)
qed

lemma split_raises:
  assumes "\<not> (length X = length y \<and> (\<exists>c. ns \<le> count_list y c))"
  shows "StratifiedKFold_split ns shuf rng ne X y = Inl ValueError"
proof (cases "length X = length y")
  case False
  then show ?thesis by (simp add: StratifiedKFold_split_def)
next
  case True
  with assms have "\<forall>c. count_list y c < ns" by (simp add: not_le)
  from all_classes_small [OF this]
  have "make_test_folds ns shuf rng ne y = Inl ValueError"
    by (simp add: make_test_folds_def Let_def)
  then show ?thesis by (simp add: StratifiedKFold_split_def)
qed

subsection \<open>The planner\<close>

lemma fold_planner_returns:
  assumes "length image_paths = length labels" and "5 \<le> count_list labels c"
  shows "\<exists>folds. StratifiedKFold_split n_splits False rng ne image_paths labels = Inr folds \<and>
     length folds = 5 \<and>
     (\<forall>i < 5. \<forall>j < 5. i \<noteq> j \<longrightarrow> set (snd (folds ! i)) \<inter> set (snd (folds ! j)) = {}) \<and>
     (\<Union>i < 5. set (snd (folds ! i))) = {0 ..< length image_paths} \<and>
     (\<forall>i < 5. set (fst (folds ! i)) = {0 ..< length image_paths} - set (snd (folds ! i))) \<and>
     StratifiedKFold_split n_splits False rng' ne' image_paths labels = Inr folds"
proof -
  let ?n = "length image_paths"
  have ns: "1 < (5 :: nat)" by simp
  from split_folds [OF assms(1) ns assms(2), of rng ne] obtain tf where
    r: "\<forall>p < length labels. tf ! p < 5"
    and sp: "StratifiedKFold_split 5 False rng ne image_paths labels =
       Inr (map (\<lambda>i. (filter (\<lambda>p. tf ! p \<noteq> i) [0 ..< ?n],
                       filter (\<lambda>p. tf ! p = i) [0 ..< ?n])) [0 ..< 5])"
    by blast
  let ?folds = "map (\<lambda>i. (filter (\<lambda>p. tf ! p \<noteq> i) [0 ..< ?n],
                       filter (\<lambda>p. tf ! p = i) [0 ..< ?n])) [0 ..< 5]"
  have nth: "?folds ! i = (filter (\<lambda>p. tf ! p \<noteq> i) [0 ..< ?n], filter (\<lambda>p. tf ! p = i) [0 ..< ?n])"
    if "i < 5" for i
    using that by (simp del: upt_Suc)
  have a: "StratifiedKFold_split n_splits False rng ne image_paths labels = Inr ?folds"
    using sp by (simp only: n_splits_def)
  have b: "length ?folds = 5" by simp
  have c: "\<forall>i < 5. \<forall>j < 5. i \<noteq> j \<longrightarrow> set (snd (?folds ! i)) \<inter> set (snd (?folds ! j)) = {}"
  proof (intro allI impI)
    fix i j :: nat assume "i < 5" "j < 5" "i \<noteq> j"
    then show "set (snd (?folds ! i)) \<inter> set (snd (?folds ! j)) = {}"
      by (simp only: nth) auto
  qed
  have d: "(\<Union>i < 5. set (snd (?folds ! i))) = {0 ..< ?n}"
  proof (rule set_eqI)
    fix p
    show "p \<in> (\<Union>i < 5. set (snd (?folds ! i))) \<longleftrightarrow> p \<in> {0 ..< ?n}"
    proof
      assume "p \<in> (\<Union>i < 5. set (snd (?folds ! i)))"
      then obtain i where "i < 5" and "p \<in> set (snd (?folds ! i))" by auto
      then show "p \<in> {0 ..< ?n}" by (simp only: nth) auto
    next
      assume p: "p \<in> {0 ..< ?n}"
      then have lt: "tf ! p < 5" using r assms(1) by simp
      with p have "p \<in> set (snd (?folds ! (tf ! p)))" by (simp only: nth [OF lt]) simp
      with lt show "p \<in> (\<Union>i < 5. set (snd (?folds ! i)))" by blast
    qed
  qed
  have e: "\<forall>i < 5. set (fst (?folds ! i)) = {0 ..< ?n} - set (snd (?folds ! i))"
  proof (intro allI impI)
    fix i :: nat assume "i < 5"
    then show "set (fst (?folds ! i)) = {0 ..< ?n} - set (snd (?folds ! i))"
      by (simp only: nth) auto
  qed
  have pos: "0 < (5 :: nat)" by simp
  have f: "StratifiedKFold_split n_splits False rng' ne' image_paths labels = Inr ?folds"
    using a split_deterministic [OF pos assms(2), of rng ne image_paths rng' ne']
    by (simp only: n_splits_def)
  from a b c d e f show ?thesis by blast
qed

text \<open>
  Claim C2. For a dataset whose paths and labels have the same length and in which
  some class has at least five samples, the planner returns exactly five pairs of
  index lists. The validation lists of two different folds share no index, the
  validation lists together hold exactly the indices of the dataset, and the training
  list of a fold holds the indices its validation list does not. The result does not
  depend on the random source or on what the uninitialised array held: it is fixed by
  the order of the samples and labels. For every other dataset the planner raises
  \<^verbatim>\<open>ValueError\<close> and the run ends before its first fold.
\<close>

theorem fold_planner:
  "(length image_paths = length labels \<and> (\<exists>c. 5 \<le> count_list labels c) \<longrightarrow>
      (\<exists>folds. StratifiedKFold_split n_splits False rng ne image_paths labels = Inr folds \<and>
         length folds = 5 \<and>
         (\<forall>i < 5. \<forall>j < 5. i \<noteq> j \<longrightarrow> set (snd (folds ! i)) \<inter> set (snd (folds ! j)) = {}) \<and>
         (\<Union>i < 5. set (snd (folds ! i))) = {0 ..< length image_paths} \<and>
         (\<forall>i < 5. set (fst (folds ! i)) = {0 ..< length image_paths} - set (snd (folds ! i))) \<and>
         StratifiedKFold_split n_splits False rng' ne' image_paths labels = Inr folds)) \<and>
   (\<not> (length image_paths = length labels \<and> (\<exists>c. 5 \<le> count_list labels c)) \<longrightarrow>
      StratifiedKFold_split n_splits False rng ne image_paths labels = Inl ValueError)"
proof (intro conjI impI)
  assume "length image_paths = length labels \<and> (\<exists>c. 5 \<le> count_list labels c)"
  then obtain c where "length image_paths = length labels" and "5 \<le> count_list labels c"
    by blast
  then show "\<exists>folds. StratifiedKFold_split n_splits False rng ne image_paths labels = Inr folds \<and>
         length folds = 5 \<and>
         (\<forall>i < 5. \<forall>j < 5. i \<noteq> j \<longrightarrow> set (snd (folds ! i)) \<inter> set (snd (folds ! j)) = {}) \<and>
         (\<Union>i < 5. set (snd (folds ! i))) = {0 ..< length image_paths} \<and>
         (\<forall>i < 5. set (fst (folds ! i)) = {0 ..< length image_paths} - set (snd (folds ! i))) \<and>
         StratifiedKFold_split n_splits False rng' ne' image_paths labels = Inr folds"
    by (rule fold_planner_returns)
next
  assume "\<not> (length image_paths = length labels \<and> (\<exists>c. 5 \<le> count_list labels c))"
  then show "StratifiedKFold_split n_splits False rng ne image_paths labels = Inl ValueError"
    unfolding n_splits_def by (rule split_raises)
qed

text \<open>Eleven samples of three classes, the largest with seven samples.\<close>

lemma demo11_split:
  "StratifiedKFold_split n_splits False (\<lambda>k xs. xs) (\<lambda>i. 99) [0 ..< 11]
     [7, 7, 3, 7, 3, 7, 7, 3, 7, 5, 7 :: int] =
   Inr [([2, 3, 4, 5, 6, 7, 8, 10], [0, 1, 9]),
        ([0, 1, 2, 4, 6, 7, 8, 9, 10], [3, 5]),
        ([0, 1, 3, 4, 5, 7, 8, 9, 10], [2, 6]),
        ([0, 1, 2, 3, 5, 6, 7, 9, 10], [4, 8]),
        ([0, 1, 2, 3, 4, 5, 6, 8, 9], [7, 10])]"
  by code_simp

theorem fold_planner_witness:
  "StratifiedKFold_split n_splits False (\<lambda>k. rev) (\<lambda>i. i) [0 ..< 11]
     [7, 7, 3, 7, 3, 7, 7, 3, 7, 5, 7 :: int] =
   Inr [([2, 3, 4, 5, 6, 7, 8, 10], [0, 1, 9]),
        ([0, 1, 2, 4, 6, 7, 8, 9, 10], [3, 5]),
        ([0, 1, 3, 4, 5, 7, 8, 9, 10], [2, 6]),
        ([0, 1, 2, 3, 5, 6, 7, 9, 10], [4, 8]),
        ([0, 1, 2, 3, 4, 5, 6, 8, 9], [7, 10])] \<and>
   set [0, 1, 9] \<union> set [3, 5] \<union> set [2, 6] \<union> set [4, 8] \<union> set [7, 10] = {0 ..< (11 :: nat)}"
proof -
  have len: "length [0 ..< 11 :: nat] = length [7, 7, 3, 7, 3, 7, 7, 3, 7, 5, 7 :: int]" by simp
  have big: "5 \<le> count_list [7, 7, 3, 7, 3, 7, 7, 3, 7, 5, 7 :: int] 7" by simp
  from len big have dom: "length [0 ..< 11 :: nat] = length [7, 7, 3, 7, 3, 7, 7, 3, 7, 5, 7 :: int] \<and>
      (\<exists>c. 5 \<le> count_list [7, 7, 3, 7, 3, 7, 7, 3, 7, 5, 7 :: int] c)"
    by blast
  from fold_planner [where rng = "\<lambda>k xs. xs" and ne = "\<lambda>i. 99" and rng' = "\<lambda>k. rev" and ne' = "\<lambda>i. i",
      THEN conjunct1, THEN mp, OF dom]
  obtain folds where
    a: "StratifiedKFold_split n_splits False (\<lambda>k xs. xs) (\<lambda>i. 99) [0 ..< 11]
          [7, 7, 3, 7, 3, 7, 7, 3, 7, 5, 7 :: int] = Inr folds"
    and u: "(\<Union>i < 5. set (snd (folds ! i))) = {0 ..< length [0 ..< 11 :: nat]}"
    and b: "StratifiedKFold_split n_splits False (\<lambda>k. rev) (\<lambda>i. i) [0 ..< 11]
          [7, 7, 3, 7, 3, 7, 7, 3, 7, 5, 7 :: int] = Inr folds"
    by blast
  from a have folds: "folds = [([2, 3, 4, 5, 6, 7, 8, 10], [0, 1, 9]),
        ([0, 1, 2, 4, 6, 7, 8, 9, 10], [3, 5]),
        ([0, 1, 3, 4, 5, 7, 8, 9, 10], [2, 6]),
        ([0, 1, 2, 3, 5, 6, 7, 9, 10], [4, 8]),
        ([0, 1, 2, 3, 4, 5, 6, 8, 9], [7, 10])]"
    by (simp only: demo11_split sum.inject)
  have five: "{..< 5 :: nat} = {0, 1, 2, 3, 4}" by auto
  from u have "set [0, 1, 9] \<union> set [3, 5] \<union> set [2, 6] \<union> set [4, 8] \<union> set [7, 10] = {0 ..< (11 :: nat)}"
    unfolding folds five by (simp add: insert_commute)
  with b folds show ?thesis by simp
qed

end
